theory Spec2Isabelle
  imports Complex_Main
begin

section \<open>Host side: \<open>gui.py\<close>\<close>

subsection \<open>Bytes, text and the string operations \<open>get_data\<close> uses\<close>

text \<open>
  A \<open>bytes\<close> object is a list of 8-bit characters. Decoding as ASCII gives the same
  characters as text and raises \<open>UnicodeDecodeError\<close> on any byte above 127.
\<close>

type_synonym bytes = "char list"

datatype error = UnicodeDecodeError | ZeroDivisionError | TimerError | EmptyQueue

definition decode_ascii :: "bytes \<Rightarrow> error + string" where
  "decode_ascii b =
     (if \<forall>c \<in> set b. (of_char c :: nat) < 128 then Inr b else Inl UnicodeDecodeError)"

text \<open>The slice \<open>line[:-2]\<close>: everything but the last two bytes, empty for a shorter line.\<close>

definition drop_last2 :: "bytes \<Rightarrow> bytes" where
  "drop_last2 line = take (length line - 2) line"

text \<open>\<open>str.split(',')\<close> with an explicit separator: never empty, one field more than separators.\<close>

fun split :: "char \<Rightarrow> string \<Rightarrow> string list" where
  "split sep [] = [[]]"
| "split sep (c # cs) =
     (if c = sep then [] # split sep cs
      else (case split sep cs of
              [] \<Rightarrow> [[c]]
            | f # fs \<Rightarrow> (c # f) # fs))"

text \<open>
  \<open>str.strip()\<close> removes leading and trailing white space; among ASCII characters Python
  counts tab, line feed, vertical tab, form feed, carriage return, the four separators
  0x1C to 0x1F, and the space.
\<close>

definition is_space :: "char \<Rightarrow> bool" where
  "is_space c = ((of_char c :: nat) \<in> {9, 10, 11, 12, 13, 28, 29, 30, 31, 32})"

definition strip :: "string \<Rightarrow> string" where
  "strip s = rev (dropWhile is_space (rev (dropWhile is_space s)))"

subsection \<open>The builtin \<open>float\<close> on text\<close>

text \<open>
  \<open>float(s)\<close> accepts, between optional white space, an optional sign followed by
  \<open>inf\<close>, \<open>infinity\<close> or \<open>nan\<close> in any case, or by a decimal number: digits with an optional
  point (at least one digit on one side of it), then an optional exponent. Single
  underscores may separate digits. Anything else raises \<open>ValueError\<close>, here \<open>None\<close>.

  The value of a decimal literal is kept as the exact rational it denotes; Python stores
  the binary64 number nearest to it. Rounding is not part of the model, so two literals
  that denote the same rational stand for the same Python float.
\<close>

datatype number = Num rat | PosInf | NegInf | NaN

definition is_digit :: "char \<Rightarrow> bool" where
  "is_digit c = (48 \<le> (of_char c :: nat) \<and> (of_char c :: nat) \<le> 57)"

definition digit_val :: "char \<Rightarrow> nat" where
  "digit_val c = of_char c - 48"

text \<open>A digit part: a digit, then digits each optionally preceded by one underscore.\<close>

fun digitpart :: "string \<Rightarrow> bool" where
  "digitpart [] = False"
| "digitpart [c] = is_digit c"
| "digitpart (c # d # cs) =
     (is_digit c \<and> (if d = CHR ''_'' then cs \<noteq> [] \<and> digitpart cs else digitpart (d # cs)))"

definition digits_val :: "string \<Rightarrow> nat" where
  "digits_val s = foldl (\<lambda>n c. 10 * n + digit_val c) 0 (filter is_digit s)"

definition split_sign :: "string \<Rightarrow> bool \<times> string" where
  "split_sign s =
     (case s of
        [] \<Rightarrow> (False, [])
      | c # cs \<Rightarrow> if c = CHR ''-'' then (True, cs)
                  else if c = CHR ''+'' then (False, cs) else (False, s))"

definition lower :: "string \<Rightarrow> string" where
  "lower s = map (\<lambda>c. if 65 \<le> (of_char c :: nat) \<and> (of_char c :: nat) \<le> 90
                        then char_of (of_char c + (32 :: nat)) else c) s"

text \<open>The mantissa: its digits read as one natural number, and how many follow the point.\<close>

definition parse_number :: "string \<Rightarrow> (nat \<times> nat) option" where
  "parse_number s =
     (let ip = takeWhile (\<lambda>c. c \<noteq> CHR ''.'') s;
          rest = dropWhile (\<lambda>c. c \<noteq> CHR ''.'') s
      in case rest of
           [] \<Rightarrow> if digitpart ip then Some (digits_val ip, 0) else None
         | _ # fp \<Rightarrow>
             if fp = [] then (if digitpart ip then Some (digits_val ip, 0) else None)
             else if (ip = [] \<or> digitpart ip) \<and> digitpart fp
             then Some (digits_val (ip @ fp), length (filter is_digit fp))
             else None)"

definition parse_exponent :: "string \<Rightarrow> int option" where
  "parse_exponent s =
     (case split_sign s of
        (neg, d) \<Rightarrow>
          if digitpart d
          then Some (if neg then - int (digits_val d) else int (digits_val d))
          else None)"

definition is_e :: "char \<Rightarrow> bool" where
  "is_e c = (c = CHR ''e'' \<or> c = CHR ''E'')"

definition pow10 :: "int \<Rightarrow> rat" where
  "pow10 e = (if 0 \<le> e then 10 ^ nat e else 1 / 10 ^ nat (- e))"

definition parse_floatnumber :: "string \<Rightarrow> rat option" where
  "parse_floatnumber s =
     (case parse_number (takeWhile (\<lambda>c. \<not> is_e c) s) of
        None \<Rightarrow> None
      | Some (m, k) \<Rightarrow>
          (case dropWhile (\<lambda>c. \<not> is_e c) s of
             [] \<Rightarrow> Some (of_nat m * pow10 (- int k))
           | _ # ex \<Rightarrow>
               (case parse_exponent ex of
                  None \<Rightarrow> None
                | Some e \<Rightarrow> Some (of_nat m * pow10 (e - int k)))))"

definition py_float :: "string \<Rightarrow> number option" where
  "py_float s =
     (case split_sign (strip s) of
        (neg, u) \<Rightarrow>
          if lower u = ''inf'' \<or> lower u = ''infinity''
          then Some (if neg then NegInf else PosInf)
          else if lower u = ''nan'' then Some NaN
          else (case parse_floatnumber u of
                  None \<Rightarrow> None
                | Some q \<Rightarrow> Some (Num (if neg then - q else q))))"

subsection \<open>The serial port\<close>

text \<open>
  The port is opened without a timeout, so \<open>readline\<close> returns the next line the device
  sends, line terminator included, or blocks for ever when no further line arrives.
  \<open>ser_in s n\<close> is the line the \<open>n\<close>-th call of \<open>readline\<close> returns, \<open>None\<close> when that call
  would block for ever; \<open>ser_pos\<close> counts the calls made; \<open>ser_log\<close> records every
  operation on the port in order. Which bytes a buffer reset discards depends on when
  they arrive, so \<open>ser_in\<close> stands for the lines as \<open>readline\<close> sees them, and the resets
  only appear in the log. Failures of the transport itself are not modelled.
\<close>

datatype ser_op = Reset_output_buffer | Reset_input_buffer | Write bytes | Readline

record serial =
  ser_in :: "nat \<Rightarrow> bytes option"
  ser_pos :: nat
  ser_log :: "ser_op list"

definition Serial :: "(nat \<Rightarrow> bytes option) \<Rightarrow> serial" where
  "Serial rx = \<lparr>ser_in = rx, ser_pos = 0, ser_log = []\<rparr>"

definition reset_output_buffer :: "serial \<Rightarrow> serial" where
  "reset_output_buffer s = s\<lparr>ser_log := ser_log s @ [Reset_output_buffer]\<rparr>"

definition reset_input_buffer :: "serial \<Rightarrow> serial" where
  "reset_input_buffer s = s\<lparr>ser_log := ser_log s @ [Reset_input_buffer]\<rparr>"

definition ser_write :: "bytes \<Rightarrow> serial \<Rightarrow> serial" where
  "ser_write b s = s\<lparr>ser_log := ser_log s @ [Write b]\<rparr>"

text \<open>\<open>None\<close>: the call never returns.\<close>

definition readline :: "serial \<Rightarrow> (bytes \<times> serial) option" where
  "readline s =
     (case ser_in s (ser_pos s) of
        None \<Rightarrow> None
      | Some line \<Rightarrow> Some (line, s\<lparr>ser_pos := ser_pos s + 1, ser_log := ser_log s @ [Readline]\<rparr>))"

subsection \<open>\<open>get_data\<close>\<close>

type_synonym dataset = "number list \<times> number list"

text \<open>The \<open>for i in range(6): ser.readline()\<close> loop, counting down.\<close>

fun read_banner :: "nat \<Rightarrow> serial \<Rightarrow> serial option" where
  "read_banner 0 s = Some s"
| "read_banner (Suc n) s =
     (case readline s of None \<Rightarrow> None | Some (_, s') \<Rightarrow> read_banner n s')"

text \<open>Lines 44 to 58: what \<open>get_data\<close> does on the open port before its \<open>while\<close> loop.\<close>

definition get_data_handshake :: "serial \<Rightarrow> serial option" where
  "get_data_handshake ser =
     (let ser = reset_output_buffer ser;
          ser = ser_write [CHR 0x03] ser;
          ser = reset_input_buffer ser;
          ser = ser_write [CHR 0x02, CHR 0x04] ser
      in case read_banner 6 ser of
           None \<Rightarrow> None
         | Some ser \<Rightarrow> Some (ser_write [CHR ''3'', CHR 0x0A] ser))"

definition term_str :: string where
  "term_str = ''End''"

text \<open>
  Lines 69 to 82, the body of the \<open>while\<close> loop after \<open>readline\<close>: the new \<open>data_str\<close> and
  the two lists. The decoding is outside the \<open>try\<close>, so its exception leaves \<open>get_data\<close>;
  both conversions come before both appends, so a failure of either appends nothing.
\<close>

definition loop_body :: "bytes \<Rightarrow> dataset \<Rightarrow> error + string \<times> dataset" where
  "loop_body line acc =
     (case decode_ascii (drop_last2 line) of
        Inl e \<Rightarrow> Inl e
      | Inr data_str \<Rightarrow>
          (let data = split CHR '','' data_str
           in if length data \<ge> 2
              then (case py_float (strip (data ! 0)) of
                      None \<Rightarrow> Inr (data_str, acc)
                    | Some x \<Rightarrow>
                        (case py_float (strip (data ! 1)) of
                           None \<Rightarrow> Inr (data_str, acc)
                         | Some y \<Rightarrow> Inr (data_str, fst acc @ [x], snd acc @ [y])))
              else Inr (data_str, acc)))"

text \<open>
  The loop \<open>while term_str != data_str\<close>. \<open>data_str\<close> starts as the empty string, so the
  body runs at least once, and the condition is next looked at after each body.
  \<open>None\<close>: the loop never ends.
\<close>

partial_function (option) get_data_loop :: "serial \<Rightarrow> dataset \<Rightarrow> (error + dataset) option" where
  "get_data_loop ser acc =
     (case readline ser of
        None \<Rightarrow> None
      | Some (line, ser') \<Rightarrow>
          (case loop_body line acc of
             Inl e \<Rightarrow> Some (Inl e)
           | Inr (data_str, acc') \<Rightarrow>
               if term_str \<noteq> data_str then get_data_loop ser' acc' else Some (Inr acc')))"

declare get_data_loop.simps [code]

definition get_data :: "(nat \<Rightarrow> bytes option) \<Rightarrow> (error + dataset) option" where
  "get_data rx =
     (case get_data_handshake (Serial rx) of
        None \<Rightarrow> None
      | Some ser \<Rightarrow> get_data_loop ser ([], []))"

section \<open>Device side: \<open>step_response.py\<close>\<close>

subsection \<open>The queue\<close>

text \<open>
  Modelled from the spec: the class \<open>IntQueue\<close> of the firmware module \<open>cqueue\<close>, which
  \<open>step_response.py\<close> imports and which is not among the sources. The model is the
  \<open>BoundedSampleQueue\<close> of the spec (sections 3, 4.1 and 8): a first-in-first-out sequence
  of a capacity fixed at construction; \<open>push\<close> on a queue already at capacity drops the
  incoming sample and reports it in an overflow count; \<open>pop\<close> fails with \<open>EmptyQueue\<close> on
  an empty queue. The source calls \<open>push\<close> \<open>put\<close>, \<open>pop\<close> \<open>get\<close>, \<open>isFull\<close> \<open>full\<close>, and asks
  \<open>any\<close> for a queue that is not empty.
\<close>

record BoundedSampleQueue =
  capacity :: nat
  items :: "int list"
  overflow :: nat

definition IntQueue :: "nat \<Rightarrow> BoundedSampleQueue" where
  "IntQueue n = \<lparr>capacity = n, items = [], overflow = 0\<rparr>"

definition len :: "BoundedSampleQueue \<Rightarrow> nat" where
  "len q = length (items q)"

definition isFull :: "BoundedSampleQueue \<Rightarrow> bool" where
  "isFull q = (len q \<ge> capacity q)"

definition isEmpty :: "BoundedSampleQueue \<Rightarrow> bool" where
  "isEmpty q = (len q = 0)"

definition push :: "int \<Rightarrow> BoundedSampleQueue \<Rightarrow> BoundedSampleQueue" where
  "push sample q =
     (if isFull q then q\<lparr>overflow := overflow q + 1\<rparr>
      else q\<lparr>items := items q @ [sample]\<rparr>)"

definition pop :: "BoundedSampleQueue \<Rightarrow> error + int \<times> BoundedSampleQueue" where
  "pop q =
     (case items q of
        [] \<Rightarrow> Inl EmptyQueue
      | sample # rest \<Rightarrow> Inr (sample, q\<lparr>items := rest\<rparr>))"

subsection \<open>Constants and conversions\<close>

definition QUEUE_SIZE :: nat where
  "QUEUE_SIZE = 200"

definition TIMER_INTERVAL :: int where
  "TIMER_INTERVAL = 10"

definition ADC_RESOLUTION :: int where
  "ADC_RESOLUTION = 4096"

definition MAX_VOLTAGE :: rat where
  "MAX_VOLTAGE = 33 / 10"

text \<open>
  The firmware computes the voltage in floating point; the model keeps the exact
  quotient. How the firmware writes a float as text (\<open>str\<close> of a float) is a parameter
  \<open>str_float\<close> of the functions that print.
\<close>

definition adc_voltage :: "int \<Rightarrow> rat" where
  "adc_voltage adc_val = (of_int adc_val / of_int ADC_RESOLUTION) * MAX_VOLTAGE"

text \<open>\<open>str\<close> of an integer: its decimal digits, with a minus sign when negative.\<close>

fun digits_of :: "nat \<Rightarrow> string" where
  "digits_of n =
     (if n < 10 then [char_of (48 + n)]
      else digits_of (n div 10) @ [char_of (48 + n mod 10)])"

declare digits_of.simps [simp del]

definition str_int :: "int \<Rightarrow> string" where
  "str_int i = (if i < 0 then CHR ''-'' # digits_of (nat (- i)) else digits_of (nat i))"

subsection \<open>The board\<close>

text \<open>
  The state the program works on: the global queue, the ADC, the log of what was done
  to the timer and to pin C0, and the lines printed. \<open>adc0 b k\<close> is the value the ADC
  shows when the timer interrupt fires for the \<open>k\<close>-th time, \<open>None\<close> when the timer never
  fires a \<open>k\<close>-th time; \<open>ticks\<close> counts the interrupts served.
\<close>

datatype hw_op = Timer_init int | Timer_deinit | Pin_value bool

record board =
  int_queue :: BoundedSampleQueue
  adc0 :: "nat \<Rightarrow> int option"
  ticks :: nat
  hw_log :: "hw_op list"
  console :: "string list"

text \<open>The state after the module is loaded.\<close>

definition boot :: "(nat \<Rightarrow> int option) \<Rightarrow> board" where
  "boot adc = \<lparr>int_queue = IntQueue QUEUE_SIZE, adc0 = adc, ticks = 0, hw_log = [], console = []\<rparr>"

text \<open>The interrupt handler; \<open>val\<close> is what \<open>adc0.read()\<close> returns in this interrupt.\<close>

definition timer_int :: "int \<Rightarrow> board \<Rightarrow> board" where
  "timer_int val b = b\<lparr>int_queue := push val (int_queue b)\<rparr>"

text \<open>
  The loop of \<open>print_vals\<close>, with the time variable \<open>t\<close>. A printed line is the text
  without the line terminator. An exception leaves the function together with the
  board as it stands when it is raised.
\<close>

function print_vals_loop ::
  "(rat \<Rightarrow> string) \<Rightarrow> int \<Rightarrow> board \<Rightarrow> error \<times> board + board" where
  "print_vals_loop str_float t b =
     (if \<not> isEmpty (int_queue b)
      then (case pop (int_queue b) of
              Inl e \<Rightarrow> Inl (e, b)
            | Inr (sample, q) \<Rightarrow>
                print_vals_loop str_float (t + TIMER_INTERVAL)
                  (b\<lparr>int_queue := q,
                     console := console b @ ['''' @ str_int t @ '','' @ str_float (adc_voltage sample)]\<rparr>))
      else Inr b)"
  by pat_completeness auto
termination
  by (relation "measure (\<lambda>(str_float, t, b). length (items (int_queue b)))")
     (auto simp: pop_def split: list.splits)

declare print_vals_loop.simps [simp del]

definition print_vals :: "(rat \<Rightarrow> string) \<Rightarrow> board \<Rightarrow> error \<times> board + board" where
  "print_vals str_float b = print_vals_loop str_float 0 b"

text \<open>Python's \<open>//\<close> on integers: the floor of the quotient, an exception for a zero divisor.\<close>

definition floordiv :: "int \<Rightarrow> int \<Rightarrow> error + int" where
  "floordiv a b = (if b = 0 then Inl ZeroDivisionError else Inr (a div b))"

text \<open>
  The wait \<open>while not int_queue.full(): continue\<close>. The queue changes only when the timer
  interrupt fires, so the loop is followed from one interrupt to the next, and no
  interrupt is taken between the loop seeing the queue full and the timer being stopped.
  \<open>None\<close>: the loop never ends.
\<close>

partial_function (option) wait_full :: "board \<Rightarrow> board option" where
  "wait_full b =
     (if \<not> isFull (int_queue b)
      then (case adc0 b (ticks b) of
              None \<Rightarrow> None
            | Some val \<Rightarrow> wait_full (timer_int val (b\<lparr>ticks := ticks b + 1\<rparr>)))
      else Some b)"

declare wait_full.simps [code]

text \<open>
  \<open>step_response\<close>. The timer belongs to the firmware: whether it takes a frequency is the
  parameter \<open>accepts\<close>, and a refusal leaves the function as \<open>TimerError\<close>. A result
  \<open>Inl (e, b)\<close> is the exception \<open>e\<close> with the board \<open>b\<close> as it stands when \<open>e\<close> is raised, so
  that what has been done to the timer, the pin, the queue and the console by then can
  be read off.
\<close>

definition step_response ::
  "(int \<Rightarrow> bool) \<Rightarrow> (rat \<Rightarrow> string) \<Rightarrow> int \<Rightarrow> board \<Rightarrow> (error \<times> board + board) option" where
  "step_response accepts str_float period_ms b =
     (case floordiv 1000 period_ms of
        Inl e \<Rightarrow> Some (Inl (e, b))
      | Inr f \<Rightarrow>
          if \<not> accepts f then Some (Inl (TimerError, b))
          else
            (let b = b\<lparr>hw_log := hw_log b @ [Timer_init f]\<rparr>;
                 b = b\<lparr>hw_log := hw_log b @ [Pin_value True]\<rparr>
             in case wait_full b of
                  None \<Rightarrow> None
                | Some b \<Rightarrow>
                    (let b = b\<lparr>hw_log := hw_log b @ [Timer_deinit]\<rparr>;
                         b = b\<lparr>hw_log := hw_log b @ [Pin_value False]\<rparr>
                     in case print_vals str_float b of
                          Inl raised \<Rightarrow> Some (Inl raised)
                        | Inr b \<Rightarrow> Some (Inr (b\<lparr>console := console b @ [''End'']\<rparr>)))))"

section \<open>Inputs and readings used in the examples\<close>

text \<open>A timer that takes positive frequencies only, and one that takes any.\<close>

definition positive_only :: "int \<Rightarrow> bool" where
  "positive_only f = (0 < f)"


text \<open>A way of writing a voltage as text: the exact fraction.\<close>

definition exact_str :: "rat \<Rightarrow> string" where
  "exact_str v = (case quotient_of v of (n, d) \<Rightarrow> str_int n @ ''/'' @ str_int d)"

text \<open>An ADC whose reading in the \<open>k\<close>-th interrupt is \<open>k\<close>, with a timer that never stops.\<close>

definition ramp :: "nat \<Rightarrow> int option" where
  "ramp k = Some (int k)"

text \<open>The lines a run has printed when it returns normally.\<close>

definition printed :: "(error \<times> board + board) option \<Rightarrow> string list option" where
  "printed r = (case r of Some (Inr b) \<Rightarrow> Some (console b) | _ \<Rightarrow> None)"

text \<open>
  A stream that delivers the given lines and then falls silent, a printed line as it
  crosses the wire (the device ends every line with carriage return and line feed),
  six lines standing for the boot banner, and a device that repeats one data line for ever.
\<close>

definition stream_of :: "bytes list \<Rightarrow> nat \<Rightarrow> bytes option" where
  "stream_of ls n = (if n < length ls then Some (ls ! n) else None)"

definition crlf :: "string \<Rightarrow> bytes" where
  "crlf s = s @ [CHR 0x0D, CHR 0x0A]"

definition boot_banner :: "bytes list" where
  "boot_banner = replicate 6 (crlf ''boot'')"

definition chatter :: "nat \<Rightarrow> bytes option" where
  "chatter n = Some (crlf ''0,1.0'')"

section \<open>The specification's wording, for comparison with the code\<close>

text \<open>
  The read phase of the specification (section 4.4) on one decoded line: split on
  commas; with fewer than two fields, or when either of the first two fields fails the
  numeric parse, the line gives nothing; otherwise it gives the two parsed values.
\<close>

definition spec_parse_line :: "string \<Rightarrow> (number \<times> number) option" where
  "spec_parse_line s =
     (case split CHR '','' s of
        f0 # f1 # _ \<Rightarrow>
          (case py_float (strip f0) of
             None \<Rightarrow> None
           | Some x \<Rightarrow> (case py_float (strip f1) of None \<Rightarrow> None | Some y \<Rightarrow> Some (x, y)))
      | _ \<Rightarrow> None)"

text \<open>
  The reset and handshake of the specification (sections 4.4 and 6) with the trigger
  parameter of the caller: discard egress, send the abort byte, discard ingress, send
  the restart bytes, read six banner lines, send the parameter as a text line.
\<close>

definition spec_handshake :: "string \<Rightarrow> ser_op list" where
  "spec_handshake param =
     [Reset_output_buffer, Write [CHR 0x03], Reset_input_buffer, Write [CHR 0x02, CHR 0x04]] @
     replicate 6 Readline @ [Write (param @ [CHR 0x0A])]"

section \<open>Device side: the run\<close>

lemma wait_full_run:
  "length (items (int_queue b)) + length samples = capacity (int_queue b) \<Longrightarrow>
   \<forall>i<length samples. adc0 b (ticks b + i) = Some (samples ! i) \<Longrightarrow>
   wait_full b = Some (b\<lparr>ticks := ticks b + length samples,
                          int_queue := (int_queue b)\<lparr>items := items (int_queue b) @ samples\<rparr>\<rparr>)"
proof (induction samples arbitrary: b)
  case Nil
  then show ?case
    by (subst wait_full.simps) (simp add: isFull_def len_def)
next
  case (Cons v vs)
  let ?b1 = "timer_int v (b\<lparr>ticks := ticks b + 1\<rparr>)"
  from Cons.prems have notfull: "\<not> isFull (int_queue b)"
    by (simp add: isFull_def len_def)
  from Cons.prems(2) have first: "adc0 b (ticks b) = Some v"
    by force
  have q1: "int_queue ?b1 = (int_queue b)\<lparr>items := items (int_queue b) @ [v]\<rparr>"
    using notfull by (simp add: timer_int_def push_def)
  have len1: "length (items (int_queue ?b1)) + length vs = capacity (int_queue ?b1)"
    using Cons.prems(1) notfull by (simp add: timer_int_def push_def)
  have rest: "\<forall>i<length vs. adc0 ?b1 (ticks ?b1 + i) = Some (vs ! i)"
  proof (intro allI impI)
    fix i assume "i < length vs"
    then have "adc0 b (ticks b + Suc i) = Some ((v # vs) ! Suc i)"
      using Cons.prems(2) by (metis Suc_less_eq length_Cons)
    then show "adc0 ?b1 (ticks ?b1 + i) = Some (vs ! i)"
      by (simp add: timer_int_def)
  qed
  have "wait_full b = wait_full ?b1"
    using notfull first by (subst wait_full.simps) simp
  also have "\<dots> = Some (?b1\<lparr>ticks := ticks ?b1 + length vs,
                          int_queue := (int_queue ?b1)\<lparr>items := items (int_queue ?b1) @ vs\<rparr>\<rparr>)"
    by (rule Cons.IH [OF len1 rest])
  finally show ?case
    using notfull by (simp add: timer_int_def push_def)
qed

lemma wait_full_stuck:
  "length (items (int_queue b)) + j < capacity (int_queue b) \<Longrightarrow>
   \<forall>i<j. adc0 b (ticks b + i) \<noteq> None \<Longrightarrow>
   adc0 b (ticks b + j) = None \<Longrightarrow> wait_full b = None"
proof (induction j arbitrary: b)
  case 0
  then show ?case
    by (subst wait_full.simps) (simp add: isFull_def len_def)
next
  case (Suc j)
  from Suc.prems have notfull: "\<not> isFull (int_queue b)"
    by (simp add: isFull_def len_def)
  from Suc.prems(2) obtain v where first: "adc0 b (ticks b) = Some v"
    by force
  let ?b1 = "timer_int v (b\<lparr>ticks := ticks b + 1\<rparr>)"
  have q1: "int_queue ?b1 = (int_queue b)\<lparr>items := items (int_queue b) @ [v]\<rparr>"
    using notfull by (simp add: timer_int_def push_def)
  have a: "length (items (int_queue ?b1)) + j < capacity (int_queue ?b1)"
    using Suc.prems(1) notfull by (simp add: timer_int_def push_def)
  have b: "\<forall>i<j. adc0 ?b1 (ticks ?b1 + i) \<noteq> None"
    using Suc.prems(2) by (auto simp: timer_int_def)
  have c: "adc0 ?b1 (ticks ?b1 + j) = None"
    using Suc.prems(3) by (simp add: timer_int_def)
  have "wait_full b = wait_full ?b1"
    using notfull first by (subst wait_full.simps) simp
  then show ?case
    using Suc.IH [OF a b c] by simp
qed

lemma print_vals_loop_run:
  "items (int_queue b) = vs \<Longrightarrow>
   print_vals_loop sf t b =
     Inr (b\<lparr>int_queue := (int_queue b)\<lparr>items := []\<rparr>,
            console := console b @
              map (\<lambda>i. str_int (t + int i * TIMER_INTERVAL) @ '','' @ sf (adc_voltage (vs ! i)))
                  [0..<length vs]\<rparr>)"
proof (induction vs arbitrary: b t)
  case Nil
  then show ?case
    by (subst print_vals_loop.simps) (simp add: isEmpty_def len_def)
next
  case (Cons v vs)
  let ?b1 = "b\<lparr>int_queue := (int_queue b)\<lparr>items := vs\<rparr>,
               console := console b @ [str_int t @ '','' @ sf (adc_voltage v)]\<rparr>"
  have step: "print_vals_loop sf t b = print_vals_loop sf (t + TIMER_INTERVAL) ?b1"
    using Cons.prems by (subst print_vals_loop.simps) (simp add: isEmpty_def len_def pop_def)
  have "items (int_queue ?b1) = vs" by simp
  from Cons.IH [OF this, of "t + TIMER_INTERVAL"] show ?case
    unfolding step
    by (simp add: map_upt_Suc algebra_simps del: upt_Suc)
qed

lemma step_response_run:
  assumes f: "floordiv 1000 p = Inr f" and acc: "accepts f"
    and len: "length samples = QUEUE_SIZE"
    and adc: "\<forall>i<QUEUE_SIZE. adc i = Some (samples ! i)"
  shows "step_response accepts sf p (boot adc) =
     Some (Inr \<lparr>int_queue = IntQueue QUEUE_SIZE, adc0 = adc, ticks = QUEUE_SIZE,
                hw_log = [Timer_init f, Pin_value True, Timer_deinit, Pin_value False],
                console =
                  map (\<lambda>i. str_int (int i * TIMER_INTERVAL) @ '','' @ sf (adc_voltage (samples ! i)))
                      [0..<QUEUE_SIZE] @ [''End'']\<rparr>)"
proof -
  let ?b1 = "\<lparr>int_queue = IntQueue QUEUE_SIZE, adc0 = adc, ticks = 0,
              hw_log = [Timer_init f, Pin_value True], console = []\<rparr>"
  have w: "wait_full ?b1 =
      Some (?b1\<lparr>ticks := ticks ?b1 + length samples,
                 int_queue := (int_queue ?b1)\<lparr>items := items (int_queue ?b1) @ samples\<rparr>\<rparr>)"
    by (rule wait_full_run) (use len adc in \<open>simp_all add: IntQueue_def\<close>)
  let ?b2 = "\<lparr>int_queue = \<lparr>capacity = QUEUE_SIZE, items = samples, overflow = 0\<rparr>, adc0 = adc,
              ticks = QUEUE_SIZE,
              hw_log = [Timer_init f, Pin_value True, Timer_deinit, Pin_value False],
              console = []\<rparr>"
  have pv: "print_vals sf ?b2 =
      Inr (?b2\<lparr>int_queue := (int_queue ?b2)\<lparr>items := []\<rparr>,
               console := console ?b2 @
                 map (\<lambda>i. str_int (0 + int i * TIMER_INTERVAL) @ '','' @ sf (adc_voltage (samples ! i)))
                     [0..<length samples]\<rparr>)"
    unfolding print_vals_def by (rule print_vals_loop_run) simp
  show ?thesis
    using f acc w pv len
    by (simp add: step_response_def boot_def IntQueue_def)
qed

lemma wait_full_needs_ticks:
  assumes "wait_full b \<noteq> None"
    and "length (items (int_queue b)) + j < capacity (int_queue b)"
  shows "adc0 b (ticks b + j) \<noteq> None"
  using assms(2)
proof (induction j rule: less_induct)
  case (less j)
  show ?case
  proof
    assume n: "adc0 b (ticks b + j) = None"
    have "\<forall>i<j. adc0 b (ticks b + i) \<noteq> None"
      using less by simp
    from wait_full_stuck [OF less.prems this n] assms(1) show False
      by simp
  qed
qed

lemma step_response_returns:
  assumes "step_response accepts sf p (boot adc) = Some (Inr b')"
  shows "\<exists>f samples. floordiv 1000 p = Inr f \<and> accepts f \<and> length samples = QUEUE_SIZE \<and>
           (\<forall>i<QUEUE_SIZE. adc i = Some (samples ! i))"
proof -
  from assms obtain f where f: "floordiv 1000 p = Inr f"
    by (cases "floordiv 1000 p") (simp_all add: step_response_def)
  from assms f have acc: "accepts f"
    by (simp add: step_response_def split: if_splits)
  let ?b1 = "\<lparr>int_queue = IntQueue QUEUE_SIZE, adc0 = adc, ticks = 0,
              hw_log = [Timer_init f, Pin_value True], console = []\<rparr>"
  from assms f acc have w: "wait_full ?b1 \<noteq> None"
    by (auto simp: step_response_def boot_def split: option.splits)
  have "\<forall>i<QUEUE_SIZE. adc i \<noteq> None"
    using wait_full_needs_ticks [OF w] by (simp add: IntQueue_def)
  then have "\<forall>i<QUEUE_SIZE. adc i = Some (map (\<lambda>i. the (adc i)) [0..<QUEUE_SIZE] ! i)"
    by simp
  with f acc show ?thesis
    by (intro exI [of _ f] exI [of _ "map (\<lambda>i. the (adc i)) [0..<QUEUE_SIZE]"]) simp
qed


lemma data_line_not_End: "str_int t @ '','' @ s \<noteq> ''End''"
proof
  assume "str_int t @ '','' @ s = ''End''"
  then have "CHR '','' \<in> set ''End''"
    by (metis in_set_conv_decomp append_Cons)
  then show False by simp
qed

lemma take3_map_upt: "3 \<le> n \<Longrightarrow> take 3 (map g [0..<n] @ ys) = [g 0, g 1, g 2]"
proof -
  assume "3 \<le> n"
  then have "take 3 [0..<n] = [0..<3]" by (simp add: take_upt)
  then have "take 3 (map g [0..<n]) = map g [0..<3]" by (simp add: take_map)
  moreover have "[0..<3] = [0, 1, 2::nat]" by code_simp
  ultimately show ?thesis using \<open>3 \<le> n\<close> by simp
qed

text \<open>
  Claim C2. The claim: the \<open>i\<close>-th data line carries the time \<open>i * period_ms\<close>. The code
  at \<open>period_ms = 20\<close>: the timer is set to 50 Hz, one sample every 20 ms, and the first
  three lines carry 0, 10 and 20, since \<open>print_vals\<close> steps the time by the constant
  \<open>TIMER_INTERVAL\<close> whatever the period is.
\<close>

theorem timestamps_ignore_period:
  "map_option (take 3) (printed (step_response positive_only str_float 20 (boot ramp))) =
     Some [''0,'' @ str_float (adc_voltage 0), ''10,'' @ str_float (adc_voltage 1),
           ''20,'' @ str_float (adc_voltage 2)]"
proof -
  have f: "floordiv 1000 20 = Inr 50" by (simp add: floordiv_def)
  have acc: "positive_only 50" by (simp add: positive_only_def)
  have len: "length (map int [0..<QUEUE_SIZE]) = QUEUE_SIZE" by simp
  have adc: "\<forall>i<QUEUE_SIZE. ramp i = Some (map int [0..<QUEUE_SIZE] ! i)"
    by (simp add: ramp_def)
  have q: "3 \<le> QUEUE_SIZE" by (simp add: QUEUE_SIZE_def)
  have s: "map int [0..<QUEUE_SIZE] ! 0 = 0" "map int [0..<QUEUE_SIZE] ! 1 = 1"
    "map int [0..<QUEUE_SIZE] ! 2 = 2"
    using q by simp_all
  have t: "int 0 * TIMER_INTERVAL = 0" "int 1 * TIMER_INTERVAL = 10" "int 2 * TIMER_INTERVAL = 20"
    by (simp_all add: TIMER_INTERVAL_def)
  have d: "str_int 0 = ''0''" "str_int 10 = ''10''" "str_int 20 = ''20''"
    by code_simp+
  have "map_option (take 3) (printed (step_response positive_only str_float 20 (boot ramp))) =
      Some (take 3 (map (\<lambda>i. str_int (int i * TIMER_INTERVAL) @ '','' @
                             str_float (adc_voltage (map int [0..<QUEUE_SIZE] ! i)))
                        [0..<QUEUE_SIZE] @ [''End'']))"
    unfolding step_response_run [where accepts = positive_only and sf = str_float, OF f acc len adc]
    by (simp add: printed_def)
  also have "\<dots> = Some [''0,'' @ str_float (adc_voltage 0), ''10,'' @ str_float (adc_voltage 1),
           ''20,'' @ str_float (adc_voltage 2)]"
    unfolding take3_map_upt [OF q] s t d by simp
  finally show ?thesis .
qed

text \<open>
  Claim C3. Every run of \<open>step_response\<close> that returns normally, started from the state
  the module is loaded in, has printed exactly \<open>QUEUE_SIZE = 200\<close> data lines, the
  \<open>i\<close>-th being the time, a comma and the voltage of the \<open>i\<close>-th sample taken, in the order
  the samples were taken, and after them the line \<open>End\<close>, which is no data line.
\<close>

theorem step_response_emits:
  assumes "step_response accepts str_float period_ms (boot adc) = Some (Inr b')"
  shows "\<exists>samples. length samples = QUEUE_SIZE \<and> QUEUE_SIZE = 200 \<and>
           (\<forall>i<QUEUE_SIZE. adc i = Some (samples ! i)) \<and>
           console b' =
             map (\<lambda>i. str_int (int i * TIMER_INTERVAL) @ '','' @ str_float (adc_voltage (samples ! i)))
                 [0..<QUEUE_SIZE] @ [''End''] \<and>
           length (console b') = QUEUE_SIZE + 1 \<and>
           ''End'' \<notin> set (butlast (console b'))"
proof -
  from step_response_returns [OF assms] obtain f samples where
    f: "floordiv 1000 period_ms = Inr f" and acc: "accepts f"
    and len: "length samples = QUEUE_SIZE"
    and adc: "\<forall>i<QUEUE_SIZE. adc i = Some (samples ! i)"
    by blast
  from step_response_run [where accepts = accepts and sf = str_float, OF f acc len adc] assms
  have c: "console b' =
      map (\<lambda>i. str_int (int i * TIMER_INTERVAL) @ '','' @ str_float (adc_voltage (samples ! i)))
          [0..<QUEUE_SIZE] @ [''End'']"
    by auto
  have n: "''End'' \<notin> set (butlast (console b'))"
    unfolding c butlast_snoc using data_line_not_End [symmetric] by (auto simp del: append.simps)
  have q: "QUEUE_SIZE = 200" by (simp add: QUEUE_SIZE_def)
  have l: "length (console b') = QUEUE_SIZE + 1" unfolding c by simp
  show ?thesis
  proof (rule exI [of _ samples], intro conjI)
    show "length samples = QUEUE_SIZE" by (fact len)
    show "QUEUE_SIZE = 200" by (fact q)
    show "\<forall>i<QUEUE_SIZE. adc i = Some (samples ! i)" by (fact adc)
    show "console b' =
      map (\<lambda>i. str_int (int i * TIMER_INTERVAL) @ '','' @ str_float (adc_voltage (samples ! i)))
          [0..<QUEUE_SIZE] @ [''End'']" by (fact c)
    show "length (console b') = QUEUE_SIZE + 1" by (fact l)
    show "''End'' \<notin> set (butlast (console b'))" by (fact n)
  qed
qed

theorem step_response_emits_witness:
  "\<exists>b'. step_response positive_only exact_str 10 (boot ramp) = Some (Inr b') \<and>
        length (console b') = 201 \<and> ''End'' \<notin> set (butlast (console b'))"
proof -
  have f: "floordiv 1000 10 = Inr 100" by (simp add: floordiv_def)
  have acc: "positive_only 100" by (simp add: positive_only_def)
  have len: "length (map int [0..<QUEUE_SIZE]) = QUEUE_SIZE" by simp
  have adc: "\<forall>i<QUEUE_SIZE. ramp i = Some (map int [0..<QUEUE_SIZE] ! i)"
    by (simp add: ramp_def)
  from step_response_run [where accepts = positive_only and sf = exact_str, OF f acc len adc]
  obtain b' where
    r: "step_response positive_only exact_str 10 (boot ramp) = Some (Inr b')"
    by blast
  from step_response_emits [OF r] obtain samples :: "int list" where
    l: "length (console b') = QUEUE_SIZE + 1" and n: "''End'' \<notin> set (butlast (console b'))"
    by (elim exE conjE)
  from l have "length (console b') = 201"
    by (simp add: QUEUE_SIZE_def)
  with n have "length (console b') = 201 \<and> ''End'' \<notin> set (butlast (console b'))"
    by simp
  with r show ?thesis by blast
qed

text \<open>
  Claim C6. A \<open>push\<close> into a queue already at capacity returns, leaves the entries and the
  capacity as they were, drops the sample and adds one to the overflow count, and so
  does the interrupt handler, which does nothing but push; with capacity 4, pushing
  10, 20, 30, 40, 50 leaves 10, 20, 30, 40 in a full queue with overflow count 1.
\<close>

theorem push_full_drops:
  "(isFull q \<longrightarrow>
      items (push sample q) = items q \<and> capacity (push sample q) = capacity q \<and>
      overflow (push sample q) = overflow q + 1 \<and> isFull (push sample q)) \<and>
   (isFull (int_queue b) \<longrightarrow>
      timer_int sample b =
        b\<lparr>int_queue := (int_queue b)\<lparr>overflow := overflow (int_queue b) + 1\<rparr>\<rparr>) \<and>
   items (fold push [10, 20, 30, 40, 50] (IntQueue 4)) = [10, 20, 30, 40] \<and>
   isFull (fold push [10, 20, 30, 40, 50] (IntQueue 4)) \<and>
   overflow (fold push [10, 20, 30, 40, 50] (IntQueue 4)) = 1"
  by (simp add: push_def isFull_def len_def timer_int_def IntQueue_def)

theorem push_full_drops_witness:
  "isFull (fold push [10, 20, 30, 40] (IntQueue 4)) \<and>
   items (push 50 (fold push [10, 20, 30, 40] (IntQueue 4))) = [10, 20, 30, 40] \<and>
   overflow (push 50 (fold push [10, 20, 30, 40] (IntQueue 4))) = 1 \<and>
   isFull (int_queue (boot ramp\<lparr>int_queue := fold push [10, 20, 30, 40] (IntQueue 4)\<rparr>)) \<and>
   items (int_queue (timer_int 50 (boot ramp\<lparr>int_queue := fold push [10, 20, 30, 40] (IntQueue 4)\<rparr>)))
     = [10, 20, 30, 40]"
proof -
  have h: "isFull (fold push [10, 20, 30, 40] (IntQueue 4))"
    by (simp add: push_def isFull_def len_def IntQueue_def)
  have o: "overflow (fold push [10, 20, 30, 40] (IntQueue 4)) = 0"
    by (simp add: push_def isFull_def len_def IntQueue_def)
  have i: "items (fold push [10, 20, 30, 40] (IntQueue 4)) = [10, 20, 30, 40]"
    by (simp add: push_def isFull_def len_def IntQueue_def)
  have h2: "isFull (int_queue (boot ramp\<lparr>int_queue := fold push [10, 20, 30, 40] (IntQueue 4)\<rparr>))"
    using h by simp
  from push_full_drops [of "fold push [10, 20, 30, 40] (IntQueue 4)" 50
      "boot ramp\<lparr>int_queue := fold push [10, 20, 30, 40] (IntQueue 4)\<rparr>"] h h2 o i
  show ?thesis by simp
qed




text \<open>
  Claim C10. The frequency \<open>step_response\<close> computes, and the one a completed run has
  set the timer to, is the floor of \<open>1000 / period_ms\<close>; when \<open>period_ms\<close> does not divide
  1000, that frequency times \<open>period_ms\<close> is not 1000, so the period of a tick,
  \<open>1000 / f\<close> ms, is not \<open>period_ms\<close>; for \<open>period_ms\<close> above 1000 the frequency is 0.
\<close>

theorem timer_frequency_floor:
  "(floordiv 1000 period_ms = Inr f \<longrightarrow>
      f = \<lfloor>1000 / real_of_int period_ms\<rfloor> \<and>
      (\<not> period_ms dvd 1000 \<longrightarrow>
         f * period_ms \<noteq> 1000 \<and> (f \<noteq> 0 \<longrightarrow> 1000 / real_of_int f \<noteq> real_of_int period_ms)) \<and>
      (1000 < period_ms \<longrightarrow> f = 0)) \<and>
   (step_response accepts str_float period_ms (boot adc) = Some (Inr b') \<longrightarrow>
      (\<exists>g. floordiv 1000 period_ms = Inr g \<and>
           hw_log b' = [Timer_init g, Pin_value True, Timer_deinit, Pin_value False]))"
proof (intro conjI impI)
  assume a: "floordiv 1000 period_ms = Inr f"
  then have f: "f = 1000 div period_ms" and nz: "period_ms \<noteq> 0"
    by (auto simp: floordiv_def split: if_splits)
  have "\<lfloor>real_of_int 1000 / real_of_int period_ms\<rfloor> = 1000 div period_ms"
    by (rule floor_divide_of_int_eq)
  then show "f = \<lfloor>1000 / real_of_int period_ms\<rfloor>"
    using f by simp
  show "1000 < period_ms \<Longrightarrow> f = 0"
    using f by (simp add: div_pos_pos_trivial)
  {
    assume nd: "\<not> period_ms dvd 1000"
    show m: "f * period_ms \<noteq> 1000"
    proof
      assume "f * period_ms = 1000"
      then have "period_ms dvd 1000" by (metis dvd_triv_right)
      with nd show False by simp
    qed
    {
      assume f0: "f \<noteq> 0"
      show "1000 / real_of_int f \<noteq> real_of_int period_ms"
      proof
        assume "1000 / real_of_int f = real_of_int period_ms"
        then have "real_of_int (f * period_ms) = real_of_int 1000"
          using f0 by (simp add: field_simps)
        then have "f * period_ms = 1000" by (simp only: of_int_eq_iff)
        with m show False by simp
      qed
    }
  }
next
  assume r: "step_response accepts str_float period_ms (boot adc) = Some (Inr b')"
  from step_response_returns [OF r] obtain g samples where
    g: "floordiv 1000 period_ms = Inr g" and acc: "accepts g"
    and len: "length samples = QUEUE_SIZE"
    and adc: "\<forall>i<QUEUE_SIZE. adc i = Some (samples ! i)"
    by blast
  from step_response_run [where accepts = accepts and sf = str_float, OF g acc len adc] r
  have "hw_log b' = [Timer_init g, Pin_value True, Timer_deinit, Pin_value False]"
    by auto
  with g show "\<exists>g. floordiv 1000 period_ms = Inr g \<and>
           hw_log b' = [Timer_init g, Pin_value True, Timer_deinit, Pin_value False]"
    by blast
qed

theorem timer_frequency_floor_witness:
  "floordiv 1000 3 = Inr 333 \<and> \<not> (3 :: int) dvd 1000 \<and> (333 :: int) * 3 \<noteq> 1000 \<and>
   1000 / real_of_int 333 \<noteq> real_of_int 3 \<and>
   floordiv 1000 1500 = Inr 0 \<and> (0 :: int) = \<lfloor>1000 / real_of_int 1500\<rfloor> \<and>
   (\<exists>b'. step_response positive_only exact_str 3 (boot ramp) = Some (Inr b') \<and>
         hw_log b' = [Timer_init 333, Pin_value True, Timer_deinit, Pin_value False])"
proof -
  have a: "floordiv 1000 3 = Inr 333" by (simp add: floordiv_def)
  have n: "\<not> (3 :: int) dvd 1000" by presburger
  have b: "floordiv 1000 1500 = Inr 0" by (simp add: floordiv_def)
  have acc: "positive_only 333" by (simp add: positive_only_def)
  have len: "length (map int [0..<QUEUE_SIZE]) = QUEUE_SIZE" by simp
  have adc: "\<forall>i<QUEUE_SIZE. ramp i = Some (map int [0..<QUEUE_SIZE] ! i)"
    by (simp add: ramp_def)
  from step_response_run [where accepts = positive_only and sf = exact_str, OF a acc len adc]
  obtain b' where r: "step_response positive_only exact_str 3 (boot ramp) = Some (Inr b')"
    by blast
  from timer_frequency_floor [of 3 333 positive_only exact_str ramp b'] a n r
  have one: "(333 :: int) * 3 \<noteq> 1000 \<and> 1000 / real_of_int 333 \<noteq> real_of_int 3 \<and>
      hw_log b' = [Timer_init 333, Pin_value True, Timer_deinit, Pin_value False]"
    by simp
  from timer_frequency_floor [of 1500 0 positive_only exact_str ramp b'] b
  have two: "(0 :: int) = \<lfloor>1000 / real_of_int 1500\<rfloor>"
    by simp
  from a n b r one two show ?thesis by blast
qed

section \<open>Host side: the session\<close>

lemma decode_ascii_error: "decode_ascii b = Inl e \<Longrightarrow> e = UnicodeDecodeError"
  by (simp add: decode_ascii_def split: if_splits)

lemma loop_body_decode_error:
  "decode_ascii (drop_last2 line) = Inl e \<Longrightarrow> loop_body line acc = Inl e"
  by (simp add: loop_body_def)

lemma loop_body_spec:
  assumes "decode_ascii (drop_last2 line) = Inr d"
  shows "loop_body line acc =
     Inr (d, case spec_parse_line d of
               None \<Rightarrow> acc
             | Some (x, y) \<Rightarrow> (fst acc @ [x], snd acc @ [y]))"
proof (cases "split CHR '','' d")
  case Nil
  with assms show ?thesis
    by (simp add: loop_body_def spec_parse_line_def)
next
  case (Cons f0 fs)
  show ?thesis
  proof (cases fs)
    case Nil
    with Cons assms show ?thesis
      by (simp add: loop_body_def spec_parse_line_def)
  next
    case (Cons f1 rest)
    with \<open>split CHR '','' d = f0 # fs\<close> assms show ?thesis
      by (simp add: loop_body_def spec_parse_line_def split: option.splits)
  qed
qed

lemma spec_parse_line_End: "spec_parse_line ''End'' = None"
  by (simp add: spec_parse_line_def)

lemma get_data_loop_step:
  assumes "readline ser = Some (line, ser')" and "decode_ascii (drop_last2 line) = Inr d"
  shows "get_data_loop ser acc =
     (if d = ''End'' then Some (Inr acc)
      else get_data_loop ser'
             (case spec_parse_line d of
                None \<Rightarrow> acc
              | Some (x, y) \<Rightarrow> (fst acc @ [x], snd acc @ [y])))"
  using assms
  by (subst get_data_loop.simps)
     (auto simp: loop_body_spec term_str_def spec_parse_line_End)

lemma read_banner_Some:
  "read_banner n s = Some s' \<Longrightarrow>
   s' = s\<lparr>ser_pos := ser_pos s + n, ser_log := ser_log s @ replicate n Readline\<rparr>"
proof (induction n arbitrary: s)
  case 0
  then show ?case by simp
next
  case (Suc n)
  from Suc.prems obtain l where l: "ser_in s (ser_pos s) = Some l"
    by (auto simp: readline_def split: option.splits)
  let ?s1 = "s\<lparr>ser_pos := ser_pos s + 1, ser_log := ser_log s @ [Readline]\<rparr>"
  from Suc.prems l have "read_banner n ?s1 = Some s'"
    by (simp add: readline_def)
  from Suc.IH [OF this] show ?case
    by (simp add: replicate_app_Cons_same)
qed

lemma read_banner_total:
  "\<forall>i<n. ser_in s (ser_pos s + i) \<noteq> None \<Longrightarrow> read_banner n s \<noteq> None"
proof (induction n arbitrary: s)
  case 0
  then show ?case by simp
next
  case (Suc n)
  from Suc.prems obtain l where l: "ser_in s (ser_pos s) = Some l"
    by force
  let ?s1 = "s\<lparr>ser_pos := ser_pos s + 1, ser_log := ser_log s @ [Readline]\<rparr>"
  have "\<forall>i<n. ser_in ?s1 (ser_pos ?s1 + i) \<noteq> None"
    using Suc.prems by auto
  from Suc.IH [OF this] l show ?case
    by (simp add: readline_def)
qed

lemma get_data_handshake_Some:
  assumes "get_data_handshake (Serial rx) = Some ser"
  shows "ser = \<lparr>ser_in = rx, ser_pos = 6,
               ser_log = [Reset_output_buffer, Write [CHR 0x03], Reset_input_buffer,
                          Write [CHR 0x02, CHR 0x04]] @ replicate 6 Readline @
                         [Write [CHR ''3'', CHR 0x0A]]\<rparr>"
proof -
  let ?s0 = "\<lparr>ser_in = rx, ser_pos = 0,
              ser_log = [Reset_output_buffer, Write [CHR 0x03], Reset_input_buffer,
                         Write [CHR 0x02, CHR 0x04]]\<rparr>"
  from assms obtain s1 where b: "read_banner 6 ?s0 = Some s1"
    and s: "ser = ser_write [CHR ''3'', CHR 0x0A] s1"
    by (auto simp: get_data_handshake_def Serial_def reset_output_buffer_def
        reset_input_buffer_def ser_write_def split: option.splits)
  from read_banner_Some [OF b] s show ?thesis
    by (simp add: ser_write_def)
qed

lemma get_data_handshake_total:
  assumes "\<forall>i<6. rx i \<noteq> None"
  shows "get_data_handshake (Serial rx) \<noteq> None"
proof -
  let ?s0 = "\<lparr>ser_in = rx, ser_pos = 0,
              ser_log = [Reset_output_buffer, Write [CHR 0x03], Reset_input_buffer,
                         Write [CHR 0x02, CHR 0x04]]\<rparr>"
  have "read_banner 6 ?s0 \<noteq> None"
    by (rule read_banner_total) (use assms in simp)
  then show ?thesis
    by (auto simp: get_data_handshake_def Serial_def reset_output_buffer_def
        reset_input_buffer_def ser_write_def split: option.splits)
qed

lemma map_filter_Cons:
  "List.map_filter f (x # xs) =
     (case f x of None \<Rightarrow> List.map_filter f xs | Some y \<Rightarrow> y # List.map_filter f xs)"
  by (simp add: List.map_filter_def split: option.splits)

lemma get_data_loop_returns:
  assumes "get_data_loop ser acc = Some r"
  shows "\<exists>ds l. (\<forall>i<length ds. \<exists>l. ser_in ser (ser_pos ser + i) = Some l \<and>
                      decode_ascii (drop_last2 l) = Inr (ds ! i) \<and> ds ! i \<noteq> ''End'') \<and>
           ser_in ser (ser_pos ser + length ds) = Some l \<and>
           (decode_ascii (drop_last2 l) = Inl UnicodeDecodeError \<and> r = Inl UnicodeDecodeError \<or>
            decode_ascii (drop_last2 l) = Inr ''End'' \<and>
            r = Inr (fst acc @ map fst (List.map_filter spec_parse_line ds),
                     snd acc @ map snd (List.map_filter spec_parse_line ds)))"
  using assms
proof (induction rule: get_data_loop.raw_induct [rotated 1, consumes 1, case_names step])
  case (step loop ser acc r)
  from step(2) obtain line ser' where rl: "readline ser = Some (line, ser')"
    by (cases "readline ser") auto
  then have l0: "ser_in ser (ser_pos ser) = Some line"
    and ser': "ser_in ser' = ser_in ser" "ser_pos ser' = ser_pos ser + 1"
    by (auto simp: readline_def split: option.splits)
  show ?case
  proof (cases "decode_ascii (drop_last2 line)")
    case (Inl e)
    with step(2) rl have "r = Inl e"
      by (simp add: loop_body_decode_error)
    with l0 Inl decode_ascii_error [OF Inl] show ?thesis
      by (intro exI [of _ "[]"] exI [of _ line]) simp
  next
    case (Inr d)
    let ?acc' = "case spec_parse_line d of
                   None \<Rightarrow> acc
                 | Some (x, y) \<Rightarrow> (fst acc @ [x], snd acc @ [y])"
    have body: "loop_body line acc = Inr (d, ?acc')"
      by (rule loop_body_spec [OF Inr])
    show ?thesis
    proof (cases "d = ''End''")
      case True
      with step(2) rl body have "r = Inr acc"
        by (simp add: term_str_def spec_parse_line_End)
      with l0 Inr True show ?thesis
        by (intro exI [of _ "[]"] exI [of _ line]) (simp add: List.map_filter_def)
    next
      case False
      with step(2) rl body have "loop ser' ?acc' = Some r"
        by (simp add: term_str_def)
      from step(1) [OF this] obtain ds l where
        pre: "\<forall>i<length ds. \<exists>l. ser_in ser' (ser_pos ser' + i) = Some l \<and>
                decode_ascii (drop_last2 l) = Inr (ds ! i) \<and> ds ! i \<noteq> ''End''"
        and last: "ser_in ser' (ser_pos ser' + length ds) = Some l"
        and res: "decode_ascii (drop_last2 l) = Inl UnicodeDecodeError \<and> r = Inl UnicodeDecodeError \<or>
            decode_ascii (drop_last2 l) = Inr ''End'' \<and>
            r = Inr (fst ?acc' @ map fst (List.map_filter spec_parse_line ds),
                     snd ?acc' @ map snd (List.map_filter spec_parse_line ds))"
        by blast
      have pre': "\<forall>i<length (d # ds). \<exists>l. ser_in ser (ser_pos ser + i) = Some l \<and>
                decode_ascii (drop_last2 l) = Inr ((d # ds) ! i) \<and> (d # ds) ! i \<noteq> ''End''"
      proof (intro allI impI)
        fix i assume i: "i < length (d # ds)"
        show "\<exists>l. ser_in ser (ser_pos ser + i) = Some l \<and>
                decode_ascii (drop_last2 l) = Inr ((d # ds) ! i) \<and> (d # ds) ! i \<noteq> ''End''"
        proof (cases i)
          case 0
          with l0 Inr False show ?thesis by simp
        next
          case (Suc j)
          with i have "j < length ds" by simp
          with pre ser' Suc show ?thesis by simp
        qed
      qed
      have last': "ser_in ser (ser_pos ser + length (d # ds)) = Some l"
        using last ser' by simp
      have acc_eq:
        "fst ?acc' @ map fst (List.map_filter spec_parse_line ds) =
           fst acc @ map fst (List.map_filter spec_parse_line (d # ds))"
        "snd ?acc' @ map snd (List.map_filter spec_parse_line ds) =
           snd acc @ map snd (List.map_filter spec_parse_line (d # ds))"
        by (simp_all add: map_filter_Cons split: option.splits)
      from pre' last' res show ?thesis
        unfolding acc_eq by (intro exI [of _ "d # ds"] exI [of _ l]) blast
    qed
  qed
qed

lemma length_map_filter:
  "length (List.map_filter f xs) = length (filter (\<lambda>x. f x \<noteq> None) xs)"
  by (simp add: List.map_filter_def)

lemma get_data_returns:
  assumes "get_data rx = Some r"
  shows "\<exists>ds l. (\<forall>i<length ds. \<exists>l. rx (6 + i) = Some l \<and>
                      decode_ascii (drop_last2 l) = Inr (ds ! i) \<and> ds ! i \<noteq> ''End'') \<and>
           rx (6 + length ds) = Some l \<and>
           (decode_ascii (drop_last2 l) = Inl UnicodeDecodeError \<and> r = Inl UnicodeDecodeError \<or>
            decode_ascii (drop_last2 l) = Inr ''End'' \<and>
            r = Inr (map fst (List.map_filter spec_parse_line ds),
                     map snd (List.map_filter spec_parse_line ds)))"
proof -
  from assms obtain ser where h: "get_data_handshake (Serial rx) = Some ser"
    and l: "get_data_loop ser ([], []) = Some r"
    by (auto simp: get_data_def split: option.splits)
  from get_data_handshake_Some [OF h] have "ser_in ser = rx" "ser_pos ser = 6"
    by simp_all
  with get_data_loop_returns [OF l] show ?thesis
    by simp
qed

lemma spec_parse_line_malformed:
  assumes "length (split CHR '','' d) < 2 \<or>
           py_float (strip (split CHR '','' d ! 0)) = None \<or>
           py_float (strip (split CHR '','' d ! 1)) = None"
  shows "spec_parse_line d = None"
proof (cases "split CHR '','' d")
  case Nil
  then show ?thesis by (simp add: spec_parse_line_def)
next
  case (Cons f0 fs)
  show ?thesis
  proof (cases fs)
    case Nil
    with Cons show ?thesis by (simp add: spec_parse_line_def)
  next
    case (Cons f1 rest)
    with \<open>split CHR '','' d = f0 # fs\<close> assms show ?thesis
      by (auto simp: spec_parse_line_def split: option.splits)
  qed
qed

text \<open>
  Claim C1, as stated, fails: \<open>get_data\<close> has no timeout. On a device that sends the
  banner and one data line and then falls silent, it never returns.
\<close>

theorem get_data_hangs:
  "get_data (stream_of (boot_banner @ [crlf ''0,1.0''])) = None"
  by code_simp

text \<open>
  Claim C1, amended. On every stream whose lines after the banner never decode to
  \<open>End\<close>, \<open>get_data\<close> returns no dataset, partial or not: it never returns at all, or it
  leaves with \<open>UnicodeDecodeError\<close> at a line that is not ASCII. There is no timeout.
\<close>

theorem get_data_no_sentinel:
  assumes "\<forall>n l. 6 \<le> n \<longrightarrow> rx n = Some l \<longrightarrow> decode_ascii (drop_last2 l) \<noteq> Inr ''End''"
  shows "get_data rx = None \<or>
         (get_data rx = Some (Inl UnicodeDecodeError) \<and>
          (\<exists>n l. 6 \<le> n \<and> rx n = Some l \<and> decode_ascii (drop_last2 l) = Inl UnicodeDecodeError))"
proof (cases "get_data rx")
  case None
  then show ?thesis by simp
next
  case (Some r)
  from get_data_returns [OF Some] obtain ds l where
    l: "rx (6 + length ds) = Some l"
    and r: "decode_ascii (drop_last2 l) = Inl UnicodeDecodeError \<and> r = Inl UnicodeDecodeError \<or>
            decode_ascii (drop_last2 l) = Inr ''End'' \<and>
            r = Inr (map fst (List.map_filter spec_parse_line ds),
                     map snd (List.map_filter spec_parse_line ds))"
    by blast
  from assms [rule_format, of "6 + length ds" l] l
  have ns: "decode_ascii (drop_last2 l) \<noteq> Inr ''End''"
    by simp
  with r have "decode_ascii (drop_last2 l) = Inl UnicodeDecodeError" and "r = Inl UnicodeDecodeError"
    by simp_all
  with Some l show ?thesis
    by (intro disjI2 conjI exI [of _ "6 + length ds"] exI [of _ l]) simp_all
qed

theorem get_data_no_sentinel_witness:
  "get_data chatter = None"
proof -
  have d: "decode_ascii (drop_last2 (crlf ''0,1.0'')) = Inr ''0,1.0''"
    by (simp add: decode_ascii_def drop_last2_def crlf_def)
  have "\<forall>n l. 6 \<le> n \<longrightarrow> chatter n = Some l \<longrightarrow> decode_ascii (drop_last2 l) \<noteq> Inr ''End''"
    by (auto simp: chatter_def d)
  from get_data_no_sentinel [OF this]
  have "get_data chatter = None \<or>
      (\<exists>n l. chatter n = Some l \<and> decode_ascii (drop_last2 l) = Inl UnicodeDecodeError)"
    by blast
  moreover have "\<not> (\<exists>n l. chatter n = Some l \<and>
      decode_ascii (drop_last2 l) = Inl UnicodeDecodeError)"
    by (auto simp: chatter_def d)
  ultimately show ?thesis by blast
qed

text \<open>
  Claim C4. When \<open>get_data\<close> returns the lists \<open>xs\<close> and \<open>ys\<close>, there are decoded lines
  \<open>ds\<close>, those received after the banner and before the first line \<open>End\<close>, such that \<open>xs\<close>
  and \<open>ys\<close> are equally long, as long as the number of well-formed lines among \<open>ds\<close>, and
  paired up they are the parsed first two fields of the well-formed lines in the order
  of arrival. The lines \<open>0,1.0\<close>, \<open>10,1.2\<close>, \<open>20,1.4\<close>, \<open>End\<close>, each sent with carriage
  return and line feed after the six banner lines, give 0, 10, 20 and 1.0, 1.2, 1.4.
\<close>

theorem get_data_success:
  "(get_data rx = Some (Inr (xs, ys)) \<longrightarrow>
      (\<exists>ds. (\<forall>i<length ds. \<exists>l. rx (6 + i) = Some l \<and>
                  decode_ascii (drop_last2 l) = Inr (ds ! i) \<and> ds ! i \<noteq> ''End'') \<and>
            (\<exists>l. rx (6 + length ds) = Some l \<and> decode_ascii (drop_last2 l) = Inr ''End'') \<and>
            length xs = length ys \<and>
            length xs = length (filter (\<lambda>d. spec_parse_line d \<noteq> None) ds) \<and>
            zip xs ys = List.map_filter spec_parse_line ds)) \<and>
   get_data (stream_of (boot_banner @ map crlf [''0,1.0'', ''10,1.2'', ''20,1.4'', ''End''])) =
     Some (Inr ([Num 0, Num 10, Num 20], [Num 1, Num (12 / 10), Num (14 / 10)]))"
proof (intro conjI impI)
  assume a: "get_data rx = Some (Inr (xs, ys))"
  from get_data_returns [OF a] obtain ds l where
    pre: "\<forall>i<length ds. \<exists>l. rx (6 + i) = Some l \<and>
            decode_ascii (drop_last2 l) = Inr (ds ! i) \<and> ds ! i \<noteq> ''End''"
    and l: "rx (6 + length ds) = Some l"
    and r: "decode_ascii (drop_last2 l) = Inl UnicodeDecodeError \<and>
              (Inr (xs, ys) :: error + dataset) = Inl UnicodeDecodeError \<or>
            decode_ascii (drop_last2 l) = Inr ''End'' \<and>
            (Inr (xs, ys) :: error + dataset) =
              Inr (map fst (List.map_filter spec_parse_line ds),
                   map snd (List.map_filter spec_parse_line ds))"
    by blast
  from r have e: "decode_ascii (drop_last2 l) = Inr ''End''"
    and xs: "xs = map fst (List.map_filter spec_parse_line ds)"
    and ys: "ys = map snd (List.map_filter spec_parse_line ds)"
    by simp_all
  have z: "zip xs ys = List.map_filter spec_parse_line ds"
    unfolding xs ys by (simp add: zip_map_fst_snd)
  have n: "length xs = length (filter (\<lambda>d. spec_parse_line d \<noteq> None) ds)"
    unfolding xs by (simp add: length_map_filter)
  have m: "length xs = length ys"
    unfolding xs ys by simp
  from pre l e z n m
  show "\<exists>ds. (\<forall>i<length ds. \<exists>l. rx (6 + i) = Some l \<and>
                  decode_ascii (drop_last2 l) = Inr (ds ! i) \<and> ds ! i \<noteq> ''End'') \<and>
            (\<exists>l. rx (6 + length ds) = Some l \<and> decode_ascii (drop_last2 l) = Inr ''End'') \<and>
            length xs = length ys \<and>
            length xs = length (filter (\<lambda>d. spec_parse_line d \<noteq> None) ds) \<and>
            zip xs ys = List.map_filter spec_parse_line ds"
    by (intro exI [of _ ds]) blast
next
  show "get_data (stream_of (boot_banner @ map crlf [''0,1.0'', ''10,1.2'', ''20,1.4'', ''End''])) =
     Some (Inr ([Num 0, Num 10, Num 20], [Num 1, Num (12 / 10), Num (14 / 10)]))"
    by code_simp
qed

theorem get_data_success_witness:
  "get_data (stream_of (boot_banner @ map crlf [''7,0.5'', ''junk'', ''End''])) =
     Some (Inr ([Num 7], [Num (1 / 2)])) \<and>
   (\<exists>ds. length [Num 7] = length (filter (\<lambda>d. spec_parse_line d \<noteq> None) ds) \<and>
         zip [Num 7] [Num (1 / 2)] = List.map_filter spec_parse_line ds)"
proof -
  have a: "get_data (stream_of (boot_banner @ map crlf [''7,0.5'', ''junk'', ''End''])) =
     Some (Inr ([Num 7], [Num (1 / 2)]))"
    by code_simp
  from get_data_success
    [of "stream_of (boot_banner @ map crlf [''7,0.5'', ''junk'', ''End''])" "[Num 7]" "[Num (1 / 2)]"]
    a
  have "\<exists>ds. length [Num 7] = length (filter (\<lambda>d. spec_parse_line d \<noteq> None) ds) \<and>
         zip [Num 7] [Num (1 / 2)] = List.map_filter spec_parse_line ds"
    by blast
  with a show ?thesis by blast
qed

text \<open>
  Claim C5, as stated, fails. In the stream of the specification's own example, put
  the byte 0xE9 in front of the malformed line \<open>bad,data\<close>. The received line still has
  a first field that is no number, yet it is not skipped: the decoding, which is
  outside the \<open>try\<close>, raises \<open>UnicodeDecodeError\<close> and \<open>get_data\<close> ends with it.
\<close>

theorem noise_byte_ends_session:
  "py_float (strip (split CHR '','' (CHR 0xE9 # ''bad,data'') ! 0)) = None \<and>
   get_data (stream_of (boot_banner @
       map crlf [''1,2.5'', CHR 0xE9 # ''bad,data'', ''2,3.5'', ''End''])) =
     Some (Inl UnicodeDecodeError)"
  by code_simp

text \<open>
  Claim C5, amended. A line before the sentinel that decodes as ASCII and has fewer
  than two comma-separated fields, or whose first or second field is no number, leaves
  both lists as they are, and the loop goes on from the next line as if the line had
  not been there; nothing is raised. A line that does not decode as ASCII is not
  skipped: it ends the loop with \<open>UnicodeDecodeError\<close>. The two example streams of the
  specification, each line sent with carriage return and line feed after the six
  banner lines, give the results it states.
\<close>

theorem malformed_line_skipped:
  "(readline ser = Some (line, ser') \<longrightarrow>
    decode_ascii (drop_last2 line) = Inr d \<longrightarrow> d \<noteq> ''End'' \<longrightarrow>
    (length (split CHR '','' d) < 2 \<or>
     py_float (strip (split CHR '','' d ! 0)) = None \<or>
     py_float (strip (split CHR '','' d ! 1)) = None) \<longrightarrow>
    loop_body line acc = Inr (d, acc) \<and> get_data_loop ser acc = get_data_loop ser' acc) \<and>
   get_data (stream_of (boot_banner @ map crlf [''1,2.5'', ''bad,data'', ''2,3.5'', ''End''])) =
     Some (Inr ([Num 1, Num 2], [Num (25 / 10), Num (35 / 10)])) \<and>
   get_data (stream_of (boot_banner @ map crlf [''5'', ''3,4.0'', ''End''])) =
     Some (Inr ([Num 3], [Num 4])) \<and>
   (readline ser = Some (line, ser') \<longrightarrow>
    decode_ascii (drop_last2 line) = Inl e \<longrightarrow>
    e = UnicodeDecodeError \<and> get_data_loop ser acc = Some (Inl UnicodeDecodeError))"
proof (intro conjI impI)
  assume rl: "readline ser = Some (line, ser')"
    and d: "decode_ascii (drop_last2 line) = Inl e"
  show e: "e = UnicodeDecodeError"
    by (rule decode_ascii_error [OF d])
  show "get_data_loop ser acc = Some (Inl UnicodeDecodeError)"
    using d unfolding e
    by (subst get_data_loop.simps) (simp add: rl loop_body_decode_error)
next
  assume rl: "readline ser = Some (line, ser')"
    and d: "decode_ascii (drop_last2 line) = Inr d" and ne: "d \<noteq> ''End''"
    and bad: "length (split CHR '','' d) < 2 \<or>
     py_float (strip (split CHR '','' d ! 0)) = None \<or>
     py_float (strip (split CHR '','' d ! 1)) = None"
  have n: "spec_parse_line d = None"
    by (rule spec_parse_line_malformed [OF bad])
  show "loop_body line acc = Inr (d, acc)"
    by (simp add: loop_body_spec [OF d] n)
  show "get_data_loop ser acc = get_data_loop ser' acc"
    by (simp add: get_data_loop_step [OF rl d] ne n)
next
  show "get_data (stream_of (boot_banner @ map crlf [''1,2.5'', ''bad,data'', ''2,3.5'', ''End''])) =
     Some (Inr ([Num 1, Num 2], [Num (25 / 10), Num (35 / 10)]))"
    by code_simp
next
  show "get_data (stream_of (boot_banner @ map crlf [''5'', ''3,4.0'', ''End''])) =
     Some (Inr ([Num 3], [Num 4]))"
    by code_simp
qed

theorem malformed_line_skipped_witness:
  "loop_body (crlf ''5'') ([Num 1], [Num 2]) = Inr (''5'', ([Num 1], [Num 2])) \<and>
   get_data_loop (Serial (stream_of (map crlf [''5'', ''bad,data'', ''End'']))) ([Num 1], [Num 2]) =
     Some (Inr ([Num 1], [Num 2])) \<and>
   get_data_loop (Serial (stream_of [crlf (CHR 0xE9 # ''bad,data'')])) ([Num 1], [Num 2]) =
     Some (Inl UnicodeDecodeError)"
proof -
  let ?ry = "stream_of [crlf (CHR 0xE9 # ''bad,data'')]"
  have ry: "readline (Serial ?ry) =
      Some (crlf (CHR 0xE9 # ''bad,data''), \<lparr>ser_in = ?ry, ser_pos = 1, ser_log = [Readline]\<rparr>)"
    by (simp add: readline_def Serial_def stream_of_def)
  have dy: "decode_ascii (drop_last2 (crlf (CHR 0xE9 # ''bad,data''))) = Inl UnicodeDecodeError"
    by (simp add: decode_ascii_def drop_last2_def crlf_def)
  from malformed_line_skipped
      [where ser = "Serial ?ry" and line = "crlf (CHR 0xE9 # ''bad,data'')"
         and ser' = "\<lparr>ser_in = ?ry, ser_pos = 1, ser_log = [Readline]\<rparr>"
         and acc = "([Num 1], [Num 2])" and e = UnicodeDecodeError] ry dy
  have ly: "get_data_loop (Serial ?ry) ([Num 1], [Num 2]) = Some (Inl UnicodeDecodeError)"
    by simp
  let ?rx = "stream_of (map crlf [''5'', ''bad,data'', ''End''])"
  let ?s0 = "Serial ?rx"
  let ?s1 = "\<lparr>ser_in = ?rx, ser_pos = 1, ser_log = [Readline]\<rparr>"
  let ?s2 = "\<lparr>ser_in = ?rx, ser_pos = 2, ser_log = [Readline, Readline]\<rparr>"
  let ?acc = "([Num 1], [Num 2])"
  have r0: "readline ?s0 = Some (crlf ''5'', ?s1)"
    by (simp add: readline_def Serial_def stream_of_def)
  have r1: "readline ?s1 = Some (crlf ''bad,data'', ?s2)"
    by (simp add: readline_def stream_of_def)
  have d0: "decode_ascii (drop_last2 (crlf ''5'')) = Inr ''5''"
    by (simp add: decode_ascii_def drop_last2_def crlf_def)
  have d1: "decode_ascii (drop_last2 (crlf ''bad,data'')) = Inr ''bad,data''"
    by (simp add: decode_ascii_def drop_last2_def crlf_def)
  have b0: "length (split CHR '','' ''5'') < 2"
    by simp
  have b1: "py_float (strip (split CHR '','' ''bad,data'' ! 0)) = None"
    by code_simp
  from malformed_line_skipped [of ?s0 "crlf ''5''" ?s1 "''5''" ?acc] r0 d0 b0
  have s0: "loop_body (crlf ''5'') ?acc = Inr (''5'', ?acc)"
    and l0: "get_data_loop ?s0 ?acc = get_data_loop ?s1 ?acc"
    by simp_all
  from malformed_line_skipped [of ?s1 "crlf ''bad,data''" ?s2 "''bad,data''" ?acc] r1 d1 b1
  have l1: "get_data_loop ?s1 ?acc = get_data_loop ?s2 ?acc"
    by simp
  have l2: "get_data_loop ?s2 ?acc = Some (Inr ?acc)"
    by code_simp
  from s0 l0 l1 l2 ly show ?thesis by simp
qed

text \<open>
  Claim C8, as stated, fails: \<open>get_data\<close> takes no trigger parameter. For a caller who
  means the parameter \<open>10\<close>, the operations on the port are not those of the
  specification, since the line sent is always \<open>3\<close>.
\<close>

theorem handshake_trigger_fixed:
  "map_option ser_log (get_data_handshake (Serial (stream_of boot_banner))) \<noteq>
     Some (spec_handshake ''10'')"
  by code_simp

text \<open>
  Claim C8, amended. Before its read loop, \<open>get_data\<close> does on the port, once each and
  in this order: discard the egress, send the byte 0x03, discard the ingress, send the
  bytes 0x02 0x04, read six lines and drop them, and send the fixed text line \<open>3\<close>; the
  loop then starts at the seventh line. When six lines arrive, the handshake completes.
\<close>

theorem handshake_sequence:
  "(get_data_handshake (Serial rx) = Some ser \<longrightarrow>
      ser_log ser =
        [Reset_output_buffer, Write [CHR 0x03], Reset_input_buffer, Write [CHR 0x02, CHR 0x04],
         Readline, Readline, Readline, Readline, Readline, Readline,
         Write [CHR ''3'', CHR 0x0A]] \<and>
      ser_log ser = spec_handshake ''3'' \<and>
      ser_pos ser = 6 \<and> ser_in ser = rx \<and>
      get_data rx = get_data_loop ser ([], [])) \<and>
   ((\<forall>i<6. rx i \<noteq> None) \<longrightarrow> get_data_handshake (Serial rx) \<noteq> None)"
proof (intro conjI impI)
  assume h: "get_data_handshake (Serial rx) = Some ser"
  note s = get_data_handshake_Some [OF h]
  have six: "replicate 6 Readline = [Readline, Readline, Readline, Readline, Readline, Readline]"
    by (simp add: eval_nat_numeral)
  show "ser_log ser =
        [Reset_output_buffer, Write [CHR 0x03], Reset_input_buffer, Write [CHR 0x02, CHR 0x04],
         Readline, Readline, Readline, Readline, Readline, Readline,
         Write [CHR ''3'', CHR 0x0A]]"
    unfolding s six by simp
  show "ser_log ser = spec_handshake ''3''"
    unfolding s by (simp add: spec_handshake_def)
  show "ser_pos ser = 6" unfolding s by simp
  show "ser_in ser = rx" unfolding s by simp
  show "get_data rx = get_data_loop ser ([], [])"
    by (simp add: get_data_def h)
next
  assume "\<forall>i<6. rx i \<noteq> None"
  then show "get_data_handshake (Serial rx) \<noteq> None"
    by (rule get_data_handshake_total)
qed

theorem handshake_sequence_witness:
  "\<exists>ser. get_data_handshake (Serial (stream_of (boot_banner @ [crlf ''End'']))) = Some ser \<and>
         ser_log ser =
           [Reset_output_buffer, Write [CHR 0x03], Reset_input_buffer, Write [CHR 0x02, CHR 0x04],
            Readline, Readline, Readline, Readline, Readline, Readline,
            Write [CHR ''3'', CHR 0x0A]] \<and>
         ser_pos ser = 6 \<and>
         get_data (stream_of (boot_banner @ [crlf ''End''])) = get_data_loop ser ([], [])"
proof -
  let ?rx = "stream_of (boot_banner @ [crlf ''End''])"
  have a: "\<forall>i<6. ?rx i \<noteq> None"
    by (simp add: stream_of_def boot_banner_def)
  from handshake_sequence [of ?rx] a obtain ser where
    h: "get_data_handshake (Serial ?rx) = Some ser"
    by blast
  from handshake_sequence [of ?rx ser] h show ?thesis
    by blast
qed

text \<open>
  Claim C9. The loop ends with the dataset at a line exactly when the line without its
  last two bytes decodes to \<open>End\<close>, and that line adds nothing to the lists; at any other
  decodable line it goes on with the next line, and a line that does not decode ends
  it with the exception. So \<open>End\<close> followed by a single byte decodes to \<open>En\<close>, adds
  nothing and does not end the loop.
\<close>

theorem sentinel_needs_two_terminators:
  "(readline ser = Some (line, ser') \<longrightarrow> decode_ascii (drop_last2 line) = Inr ''End'' \<longrightarrow>
      get_data_loop ser acc = Some (Inr acc)) \<and>
   (readline ser = Some (line, ser') \<longrightarrow> decode_ascii (drop_last2 line) = Inr d \<longrightarrow>
      d \<noteq> ''End'' \<longrightarrow>
      (\<exists>acc'. loop_body line acc = Inr (d, acc') \<and>
             get_data_loop ser acc = get_data_loop ser' acc')) \<and>
   (readline ser = Some (line, ser') \<longrightarrow> decode_ascii (drop_last2 line) = Inl e \<longrightarrow>
      get_data_loop ser acc = Some (Inl e)) \<and>
   decode_ascii (drop_last2 (''End'' @ [t])) = Inr ''En'' \<and>
   (readline ser = Some (''End'' @ [t], ser') \<longrightarrow>
      loop_body (''End'' @ [t]) acc = Inr (''En'', acc) \<and>
      get_data_loop ser acc = get_data_loop ser' acc)"
proof (intro conjI impI)
  assume rl: "readline ser = Some (line, ser')"
    and d: "decode_ascii (drop_last2 line) = Inl e"
  show "get_data_loop ser acc = Some (Inl e)"
    by (subst get_data_loop.simps) (simp add: rl loop_body_decode_error [OF d])
next
  assume rl: "readline ser = Some (line, ser')"
    and d: "decode_ascii (drop_last2 line) = Inr ''End''"
  show "get_data_loop ser acc = Some (Inr acc)"
    by (simp add: get_data_loop_step [OF rl d])
next
  assume rl: "readline ser = Some (line, ser')"
    and d: "decode_ascii (drop_last2 line) = Inr d" and ne: "d \<noteq> ''End''"
  let ?acc' = "case spec_parse_line d of
                 None \<Rightarrow> acc
               | Some (x, y) \<Rightarrow> (fst acc @ [x], snd acc @ [y])"
  have "loop_body line acc = Inr (d, ?acc')"
    by (rule loop_body_spec [OF d])
  moreover have "get_data_loop ser acc = get_data_loop ser' ?acc'"
    by (simp add: get_data_loop_step [OF rl d] ne)
  ultimately show "\<exists>acc'. loop_body line acc = Inr (d, acc') \<and>
             get_data_loop ser acc = get_data_loop ser' acc'"
    by blast
next
  show en: "decode_ascii (drop_last2 (''End'' @ [t])) = Inr ''En''"
    by (simp add: decode_ascii_def drop_last2_def)
  have n: "spec_parse_line ''En'' = None"
    by (simp add: spec_parse_line_def)
  show "loop_body (''End'' @ [t]) acc = Inr (''En'', acc)"
    using loop_body_spec [OF en, of acc] n by simp
  assume rl: "readline ser = Some (''End'' @ [t], ser')"
  show "get_data_loop ser acc = get_data_loop ser' acc"
    using get_data_loop_step [OF rl en, of acc] n by simp
qed

theorem sentinel_needs_two_terminators_witness:
  "decode_ascii (drop_last2 (''End'' @ [CHR 0x0A])) = Inr ''En'' \<and>
   get_data_loop (Serial (stream_of [''End'' @ [CHR 0x0A], crlf ''7,8'', crlf ''End''])) ([], []) =
     Some (Inr ([Num 7], [Num 8])) \<and>
   get_data_loop (Serial (stream_of [crlf [CHR 0xFF]])) ([], []) = Some (Inl UnicodeDecodeError)"
proof -
  let ?ry = "stream_of [crlf [CHR 0xFF]]"
  have ry: "readline (Serial ?ry) =
      Some (crlf [CHR 0xFF], \<lparr>ser_in = ?ry, ser_pos = 1, ser_log = [Readline]\<rparr>)"
    by (simp add: readline_def Serial_def stream_of_def)
  have dy: "decode_ascii (drop_last2 (crlf [CHR 0xFF])) = Inl UnicodeDecodeError"
    by (simp add: decode_ascii_def drop_last2_def crlf_def)
  from sentinel_needs_two_terminators
      [where ser = "Serial ?ry" and line = "crlf [CHR 0xFF]" and acc = "([], [])"
         and ser' = "\<lparr>ser_in = ?ry, ser_pos = 1, ser_log = [Readline]\<rparr>"
         and e = UnicodeDecodeError] ry dy
  have ly: "get_data_loop (Serial ?ry) ([], []) = Some (Inl UnicodeDecodeError)"
    by simp
  let ?rx = "stream_of [''End'' @ [CHR 0x0A], crlf ''7,8'', crlf ''End'']"
  let ?s0 = "Serial ?rx"
  let ?s1 = "\<lparr>ser_in = ?rx, ser_pos = 1, ser_log = [Readline]\<rparr>"
  let ?s2 = "\<lparr>ser_in = ?rx, ser_pos = 2, ser_log = [Readline, Readline]\<rparr>"
  let ?s3 = "\<lparr>ser_in = ?rx, ser_pos = 3, ser_log = [Readline, Readline, Readline]\<rparr>"
  have r0: "readline ?s0 = Some (''End'' @ [CHR 0x0A], ?s1)"
    by (simp add: readline_def Serial_def stream_of_def)
  have r1: "readline ?s1 = Some (crlf ''7,8'', ?s2)"
    by (simp add: readline_def stream_of_def)
  have r2: "readline ?s2 = Some (crlf ''End'', ?s3)"
    by (simp add: readline_def stream_of_def)
  have d1: "decode_ascii (drop_last2 (crlf ''7,8'')) = Inr ''7,8''"
    by (simp add: decode_ascii_def drop_last2_def crlf_def)
  have d2: "decode_ascii (drop_last2 (crlf ''End'')) = Inr ''End''"
    by (simp add: decode_ascii_def drop_last2_def crlf_def)
  have b1: "loop_body (crlf ''7,8'') ([], []) = Inr (''7,8'', ([Num 7], [Num 8]))"
    by code_simp
  from sentinel_needs_two_terminators
      [where ser = ?s0 and line = "''End'' @ [CHR 0x0A]" and ser' = ?s1 and acc = "([], [])"
         and t = "CHR 0x0A"] r0
  have e: "decode_ascii (drop_last2 (''End'' @ [CHR 0x0A])) = Inr ''En''"
    and l0: "get_data_loop ?s0 ([], []) = get_data_loop ?s1 ([], [])"
    by simp_all
  from sentinel_needs_two_terminators
      [where ser = ?s1 and line = "crlf ''7,8''" and ser' = ?s2 and acc = "([], [])"
         and d = "''7,8''"] r1 d1 b1
  have l1: "get_data_loop ?s1 ([], []) = get_data_loop ?s2 ([Num 7], [Num 8])"
    by simp
  from sentinel_needs_two_terminators
      [where ser = ?s2 and line = "crlf ''End''" and ser' = ?s3 and acc = "([Num 7], [Num 8])"] r2 d2
  have l2: "get_data_loop ?s2 ([Num 7], [Num 8]) = Some (Inr ([Num 7], [Num 8]))"
    by simp
  from e l0 l1 l2 ly show ?thesis by simp
qed

end
